theory Spec2Isabelle
  imports Complex_Main
begin

section \<open>Numbers as the scripts read them from JSON\<close>

text \<open>
  \<^verbatim>\<open>json.load\<close> yields Python ints and floats. A finite float is represented by the
  decimal number that Python prints for it (its shortest round-trip \<^verbatim>\<open>repr\<close>); negative
  zero, which prints as \<^verbatim>\<open>-0.0\<close> and compares equal to \<^verbatim>\<open>0.0\<close>, is a value of its own.
  Infinities and NaN are outside the model (the input contract asks for finite numbers).
  Arithmetic is carried out on the exact values: the rounding error of float arithmetic
  is not modelled, and every concrete evaluation below uses values on which the float
  operations are exact or far from any threshold.
\<close>

datatype num = PInt int | PFloat rat | NegZero

fun val :: "num \<Rightarrow> rat" where
  "val (PInt i) = of_int i"
| "val (PFloat q) = q"
| "val NegZero = 0"

datatype error = KeyError | IndexError | TypeError

subsection \<open>\<^verbatim>\<open>round(coord, ndigits)\<close>\<close>

definition round_half_even :: "rat \<Rightarrow> int" where
  "round_half_even x =
     (let f = \<lfloor>x\<rfloor>; d = x - of_int f
      in if d < 1 / 2 then f else if 1 / 2 < d then f + 1 else if even f then f else f + 1)"

definition pow10 :: "int \<Rightarrow> rat" where
  "pow10 p = (if 0 \<le> p then 10 ^ nat p else 1 / 10 ^ nat (- p))"

text \<open>
  An int rounded to \<open>ndigits \<ge> 0\<close> is returned as it is (an int); a float is rounded
  half-to-even and stays a float, keeping its sign when the result is zero.
\<close>

fun py_round :: "int \<Rightarrow> num \<Rightarrow> num" where
  "py_round p (PInt i) =
     (if 0 \<le> p then PInt i
      else PInt (round_half_even (of_int i / 10 ^ nat (- p)) * 10 ^ nat (- p)))"
| "py_round p NegZero = NegZero"
| "py_round p (PFloat q) =
     (let r = of_int (round_half_even (q * pow10 p)) / pow10 p
      in if r = 0 \<and> q < 0 then NegZero else PFloat r)"

subsection \<open>\<^verbatim>\<open>str\<close> of a number\<close>

definition digit_char :: "nat \<Rightarrow> char" where
  "digit_char d = ''0123456789'' ! d"

fun str_nat :: "nat \<Rightarrow> string" where
  "str_nat n = (if n < 10 then [digit_char n] else str_nat (n div 10) @ [digit_char (n mod 10)])"

declare str_nat.simps [simp del]

definition str_int :: "int \<Rightarrow> string" where
  "str_int i = (if i < 0 then CHR ''-'' # str_nat (nat (- i)) else str_nat (nat i))"

text \<open>
  \<open>decpt_of a\<close>: the position of the decimal point of \<open>a > 0\<close>, that is the \<open>k\<close>
  with \<open>10 ^ (k - 1) \<le> a < 10 ^ k\<close>. The fuel bounds the search; 400 covers the exponent
  range of a double.
\<close>

fun decpt_up :: "nat \<Rightarrow> rat \<Rightarrow> int" where
  "decpt_up 0 a = 0"
| "decpt_up (Suc n) a = (if a < 1 then 0 else 1 + decpt_up n (a / 10))"

fun decpt_down :: "nat \<Rightarrow> rat \<Rightarrow> int" where
  "decpt_down 0 a = 0"
| "decpt_down (Suc n) a = (if 1 / 10 \<le> a then 0 else decpt_down n (a * 10) - 1)"

definition decpt_of :: "rat \<Rightarrow> int" where
  "decpt_of a = (if 1 \<le> a then decpt_up 400 a else decpt_down 400 a)"

text \<open>The significant digits of a mantissa \<open>0 \<le> m < 1\<close>, at most 17 of them.\<close>

fun mant_digits :: "nat \<Rightarrow> rat \<Rightarrow> string" where
  "mant_digits 0 m = []"
| "mant_digits (Suc n) m =
     (if m = 0 then []
      else digit_char (nat \<lfloor>m * 10\<rfloor>) # mant_digits n (m * 10 - of_int \<lfloor>m * 10\<rfloor>))"

text \<open>
  The \<^verbatim>\<open>repr\<close> of a positive float from its digits \<open>ds\<close> and decimal point \<open>k\<close>:
  exponent notation when \<open>k \<le> -4\<close> or \<open>k > 16\<close>, positional notation with at least one
  fractional digit otherwise.
\<close>

definition str_exp :: "int \<Rightarrow> string" where
  "str_exp e =
     (let a = nat \<bar>e\<bar>
      in (if e < 0 then ''-'' else ''+'') @ (if a < 10 then ''0'' else []) @ str_nat a)"

definition repr_digits :: "string \<Rightarrow> int \<Rightarrow> string" where
  "repr_digits ds k =
     (if k \<le> - 4 \<or> 16 < k then
        take 1 ds @ (if 1 < length ds then ''.'' @ drop 1 ds else []) @ ''e'' @ str_exp (k - 1)
      else if k \<le> 0 then ''0.'' @ replicate (nat (- k)) CHR ''0'' @ ds
      else if nat k < length ds then take (nat k) ds @ ''.'' @ drop (nat k) ds
      else ds @ replicate (nat k - length ds) CHR ''0'' @ ''.0'')"

fun py_str :: "num \<Rightarrow> string" where
  "py_str (PInt i) = str_int i"
| "py_str NegZero = ''-0.0''"
| "py_str (PFloat q) =
     (if q = 0 then ''0.0''
      else let a = \<bar>q\<bar>; k = decpt_of a
           in (if q < 0 then ''-'' else []) @ repr_digits (mant_digits 17 (a / pow10 k)) k)"

fun join :: "string \<Rightarrow> string list \<Rightarrow> string" where
  "join sep [] = []"
| "join sep [s] = s"
| "join sep (s # t # ss) = s @ sep @ join sep (t # ss)"

section \<open>Welding duplicate vertices\<close>

text \<open>
  The number of decimals is a constant of each script (\<^verbatim>\<open>VERTEX_PRECISION = 6\<close> in
  fix\_triangles.py, \<^verbatim>\<open>PRECISION = 5\<close> in cleaner.py and repair\_geometry.py); here it is
  the parameter \<open>p\<close>.
\<close>

type_synonym vertex = "num list"

subsection \<open>Keyed by the tuple of rounded coordinates (fix\_triangles.py, step 1)\<close>

text \<open>
  The key of \<^verbatim>\<open>vertex_map\<close> is \<^verbatim>\<open>tuple(round(coord, VERTEX_PRECISION) for coord in vertex)\<close>.
  A dict compares tuple keys componentwise with \<^verbatim>\<open>==\<close>, which on finite numbers is
  equality of values whatever the type (\<^verbatim>\<open>0 == 0.0 == -0.0\<close>, with equal hashes): the
  key is the list of values of the rounded coordinates.
\<close>

definition rounded_tuple :: "int \<Rightarrow> vertex \<Rightarrow> rat list" where
  "rounded_tuple p vertex = map (\<lambda>coord. val (py_round p coord)) vertex"

type_synonym tuple_state = "vertex list \<times> (rat list \<rightharpoonup> int) \<times> (int \<rightharpoonup> int)"

fun weld_tuple_step :: "int \<Rightarrow> tuple_state \<Rightarrow> nat \<times> vertex \<Rightarrow> tuple_state" where
  "weld_tuple_step p (new_vertices, vertex_map, index_remap) (old_idx, vertex) =
     (let rounded = rounded_tuple p vertex
      in case vertex_map rounded of
           Some j \<Rightarrow> (new_vertices, vertex_map, index_remap(int old_idx \<mapsto> j))
         | None \<Rightarrow>
             (let new_idx = int (length new_vertices)
              in (new_vertices @ [vertex], vertex_map(rounded \<mapsto> new_idx),
                  index_remap(int old_idx \<mapsto> new_idx))))"

definition weld_tuple_loop :: "int \<Rightarrow> vertex list \<Rightarrow> tuple_state" where
  "weld_tuple_loop p old_vertices =
     foldl (weld_tuple_step p) ([], Map.empty, Map.empty) (enumerate 0 old_vertices)"

definition weld_tuple :: "int \<Rightarrow> vertex list \<Rightarrow> vertex list \<times> (int \<rightharpoonup> int)" where
  "weld_tuple p old_vertices =
     (case weld_tuple_loop p old_vertices of
        (new_vertices, vertex_map, index_remap) \<Rightarrow> (new_vertices, index_remap))"

subsection \<open>Keyed by a string (cleaner.py and repair\_geometry.py)\<close>

definition vertex_key :: "int \<Rightarrow> vertex \<Rightarrow> string" where
  "vertex_key p v = join ''_'' (map py_str (map (py_round p) v))"

type_synonym string_state = "vertex list \<times> (string \<rightharpoonup> int) \<times> int list \<times> int"

fun weld_string_step :: "int \<Rightarrow> string_state \<Rightarrow> nat \<times> vertex \<Rightarrow> string_state" where
  "weld_string_step p (new_vertices, unique_vertices_map, index_mapping, new_idx_counter) (i, v) =
     (let key = vertex_key p v
      in case unique_vertices_map key of
           Some j \<Rightarrow> (new_vertices, unique_vertices_map, index_mapping[i := j], new_idx_counter)
         | None \<Rightarrow>
             (new_vertices @ [v], unique_vertices_map(key \<mapsto> new_idx_counter),
              index_mapping[i := new_idx_counter], new_idx_counter + 1))"

definition weld_string_loop :: "int \<Rightarrow> vertex list \<Rightarrow> string_state" where
  "weld_string_loop p old_vertices =
     foldl (weld_string_step p)
       ([], Map.empty, replicate (length old_vertices) (- 1), 0) (enumerate 0 old_vertices)"

definition weld_string :: "int \<Rightarrow> vertex list \<Rightarrow> vertex list \<times> int list" where
  "weld_string p old_vertices =
     (case weld_string_loop p old_vertices of
        (new_vertices, unique_vertices_map, index_mapping, new_idx_counter) \<Rightarrow>
          (new_vertices, index_mapping))"


section \<open>Exceptions and list indexing\<close>

text \<open>An uncaught exception ends the script: the first \<open>Inl\<close> is the result.\<close>

definition bind_err :: "error + 'a \<Rightarrow> ('a \<Rightarrow> error + 'b) \<Rightarrow> error + 'b" where
  "bind_err m f = (case m of Inl e \<Rightarrow> Inl e | Inr x \<Rightarrow> f x)"

fun emap :: "('a \<Rightarrow> error + 'b) \<Rightarrow> 'a list \<Rightarrow> error + 'b list" where
  "emap f [] = Inr []"
| "emap f (x # xs) = bind_err (f x) (\<lambda>y. bind_err (emap f xs) (\<lambda>ys. Inr (y # ys)))"

text \<open>\<^verbatim>\<open>xs[i]\<close> on a list: an index below zero counts from the end.\<close>

definition py_index :: "'a list \<Rightarrow> int \<Rightarrow> error + 'a" where
  "py_index xs i =
     (if 0 \<le> i \<and> i < int (length xs) then Inr (xs ! nat i)
      else if i < 0 \<and> - int (length xs) \<le> i then Inr (xs ! nat (int (length xs) + i))
      else Inl IndexError)"

text \<open>\<^verbatim>\<open>p[0]\<close>, \<^verbatim>\<open>p[1]\<close>, \<^verbatim>\<open>p[2]\<close> of a vertex, as values.\<close>

definition coords3 :: "vertex \<Rightarrow> error + rat \<times> rat \<times> rat" where
  "coords3 p = (case p of a # b # c # rest \<Rightarrow> Inr (val a, val b, val c) | _ \<Rightarrow> Inl IndexError)"

section \<open>The degeneracy tests\<close>

subsection \<open>fix.py: vector helpers\<close>

definition sub :: "rat \<times> rat \<times> rat \<Rightarrow> rat \<times> rat \<times> rat \<Rightarrow> rat \<times> rat \<times> rat" where
  "sub p2 p1 =
     (case (p2, p1) of ((a0, a1, a2), (b0, b1, b2)) \<Rightarrow> (a0 - b0, a1 - b1, a2 - b2))"

definition cross_product :: "rat \<times> rat \<times> rat \<Rightarrow> rat \<times> rat \<times> rat \<Rightarrow> rat \<times> rat \<times> rat" where
  "cross_product a b =
     (case (a, b) of ((a0, a1, a2), (b0, b1, b2)) \<Rightarrow>
        (a1 * b2 - a2 * b1, a2 * b0 - a0 * b2, a0 * b1 - a1 * b0))"

definition length_squared :: "rat \<times> rat \<times> rat \<Rightarrow> rat" where
  "length_squared v = (case v of (v0, v1, v2) \<Rightarrow> v0 ^ 2 + v1 ^ 2 + v2 ^ 2)"

subsection \<open>fix\_triangles.py: \<^verbatim>\<open>is_degenerate_triangle\<close>\<close>

definition is_degenerate_triangle :: "int \<Rightarrow> int \<Rightarrow> int \<Rightarrow> vertex list \<Rightarrow> error + bool" where
  "is_degenerate_triangle idx0 idx1 idx2 vertices =
     (if idx0 = idx1 \<or> idx1 = idx2 \<or> idx0 = idx2 then Inr True
      else if idx0 \<ge> int (length vertices) \<or> idx1 \<ge> int (length vertices)
              \<or> idx2 \<ge> int (length vertices) then Inr True
      else
        bind_err (py_index vertices idx0) (\<lambda>p0.
        bind_err (py_index vertices idx1) (\<lambda>p1.
        bind_err (py_index vertices idx2) (\<lambda>p2.
        bind_err (coords3 p0) (\<lambda>(p00, p01, p02).
        bind_err (coords3 p1) (\<lambda>(p10, p11, p12).
        bind_err (coords3 p2) (\<lambda>(p20, p21, p22).
          let v1 = (p10 - p00, p11 - p01, p12 - p02);
              v2 = (p20 - p00, p21 - p01, p22 - p02);
              cross = (case (v1, v2) of ((a0, a1, a2), (b0, b1, b2)) \<Rightarrow>
                         (a1 * b2 - a2 * b1, a2 * b0 - a0 * b2, a0 * b1 - a1 * b0));
              area_sq = (case cross of (c0, c1, c2) \<Rightarrow> c0 ^ 2 + c1 ^ 2 + c2 ^ 2)
          in Inr (area_sq < 1 / 10 ^ 16))))))))"

section \<open>Nested boundaries\<close>

text \<open>
  A boundary is an untyped nested list whose innermost elements are vertex indices
  (integers, by the input contract).
\<close>

datatype node = I int | L "node list"

subsection \<open>fix\_triangles.py: \<^verbatim>\<open>process_boundary\<close>\<close>

text \<open>
  \<^verbatim>\<open>[index_remap[int(idx)] for idx in boundary]\<close>: a missing key raises KeyError (a dict has
  no negative indexing), and \<^verbatim>\<open>int\<close> of a list raises TypeError.
\<close>

fun remap_ring :: "(int \<rightharpoonup> int) \<Rightarrow> node list \<Rightarrow> error + int list" where
  "remap_ring index_remap [] = Inr []"
| "remap_ring index_remap (I idx # rest) =
     (case index_remap idx of
        None \<Rightarrow> Inl KeyError
      | Some j \<Rightarrow> bind_err (remap_ring index_remap rest) (\<lambda>js. Inr (j # js)))"
| "remap_ring index_remap (L xs # rest) = Inl TypeError"

text \<open>The loop that removes consecutive duplicates, with \<open>cleaned\<close> as its accumulator.\<close>

fun collapse :: "int list \<Rightarrow> int list \<Rightarrow> int list" where
  "collapse cleaned [] = cleaned"
| "collapse cleaned (idx # rest) =
     collapse (if cleaned = [] \<or> idx \<noteq> last cleaned then cleaned @ [idx] else cleaned) rest"

definition clean_ring :: "int list \<Rightarrow> int list" where
  "clean_ring remapped =
     (let cleaned = collapse [] remapped
      in if length cleaned > 1 \<and> hd cleaned = last cleaned then butlast cleaned else cleaned)"

text \<open>\<^verbatim>\<open>list(dict.fromkeys(cleaned))\<close>: the distinct elements in order of first occurrence.\<close>

fun fromkeys :: "int list \<Rightarrow> int list \<Rightarrow> int list" where
  "fromkeys seen [] = seen"
| "fromkeys seen (x # xs) = fromkeys (if x \<in> set seen then seen else seen @ [x]) xs"

text \<open>
  The leaf branch. The counters \<^verbatim>\<open>total_removed\<close> and \<^verbatim>\<open>total_kept\<close> are only printed and
  are left out.
\<close>

definition process_ring :: "(int \<rightharpoonup> int) \<Rightarrow> vertex list \<Rightarrow> node list \<Rightarrow> error + node option" where
  "process_ring index_remap vertices boundary =
     bind_err (remap_ring index_remap boundary) (\<lambda>remapped.
       let unique = fromkeys [] (clean_ring remapped)
       in if length unique = 3 then
            bind_err (is_degenerate_triangle (unique ! 0) (unique ! 1) (unique ! 2) vertices)
              (\<lambda>degenerate. Inr (if degenerate then None else Some (L (map I remapped))))
          else if length unique < 3 then Inr None
          else Inr (Some (L (map I remapped))))"

fun process_boundary :: "(int \<rightharpoonup> int) \<Rightarrow> vertex list \<Rightarrow> node \<Rightarrow> error + node option"
  and process_items :: "(int \<rightharpoonup> int) \<Rightarrow> vertex list \<Rightarrow> node list \<Rightarrow> error + node list"
where
  "process_boundary index_remap vertices (I i) = Inr None"
| "process_boundary index_remap vertices (L []) = Inr None"
| "process_boundary index_remap vertices (L (I i # rest)) =
     process_ring index_remap vertices (I i # rest)"
| "process_boundary index_remap vertices (L (L xs # rest)) =
     bind_err (process_items index_remap vertices (L xs # rest))
       (\<lambda>processed. Inr (if length processed > 0 then Some (L processed) else None))"
| "process_items index_remap vertices [] = Inr []"
| "process_items index_remap vertices (item # items) =
     bind_err (process_boundary index_remap vertices item) (\<lambda>result.
     bind_err (process_items index_remap vertices items) (\<lambda>processed.
       Inr (case result of None \<Rightarrow> processed | Some r \<Rightarrow> r # processed)))"

text \<open>
  The main loop of fix\_triangles.py for one geometry: weld, then pass every boundary
  through \<^verbatim>\<open>process_boundary\<close> and keep the results that are not \<^verbatim>\<open>None\<close>.
\<close>

definition fix_triangles :: "int \<Rightarrow> vertex list \<Rightarrow> node list \<Rightarrow> error + vertex list \<times> node list" where
  "fix_triangles p old_vertices boundaries =
     (case weld_tuple p old_vertices of
        (new_vertices, index_remap) \<Rightarrow>
          bind_err (process_items index_remap new_vertices boundaries)
            (\<lambda>cleaned_boundaries. Inr (new_vertices, cleaned_boundaries)))"

subsection \<open>cleaner.py: \<^verbatim>\<open>update_boundaries\<close>\<close>

text \<open>
  The in-place update, returning the updated list. \<^verbatim>\<open>index_mapping\<close> is a list, so an index
  that is too large raises IndexError and a negative one reads from the end.
\<close>

fun update_item :: "int list \<Rightarrow> node \<Rightarrow> error + node"
  and update_boundaries :: "int list \<Rightarrow> node list \<Rightarrow> error + node list"
where
  "update_item index_mapping (I item) =
     bind_err (py_index index_mapping item) (\<lambda>j. Inr (I j))"
| "update_item index_mapping (L boundaries) =
     bind_err (update_boundaries index_mapping boundaries) (\<lambda>bs. Inr (L bs))"
| "update_boundaries index_mapping [] = Inr []"
| "update_boundaries index_mapping (item # items) =
     bind_err (update_item index_mapping item) (\<lambda>b.
     bind_err (update_boundaries index_mapping items) (\<lambda>bs. Inr (b # bs)))"


section \<open>fix.py: filtering pre-triangulated faces\<close>

text \<open>
  A face of fix.py has the shape \<^verbatim>\<open>[[[v1, v2, v3]]]\<close>: three levels of lists around the
  indices. \<open>keep_face\<close> is the body of the loop over the faces: whether the face is
  appended to \<^verbatim>\<open>new_boundaries\<close>.
\<close>

definition keep_face :: "vertex list \<Rightarrow> int list list list \<Rightarrow> error + bool" where
  "keep_face vertices face =
     (if length face = 1 \<and> length (face ! 0) = 1 \<and> length (face ! 0 ! 0) = 3 then
        (let indices = face ! 0 ! 0
         in if \<exists>idx \<in> set indices. idx \<ge> int (length vertices) \<or> idx < 0 then Inr False
            else
              bind_err (py_index vertices (indices ! 0)) (\<lambda>v1.
              bind_err (py_index vertices (indices ! 1)) (\<lambda>v2.
              bind_err (py_index vertices (indices ! 2)) (\<lambda>v3.
              bind_err (coords3 v1) (\<lambda>p1.
              bind_err (coords3 v2) (\<lambda>p2.
              bind_err (coords3 v3) (\<lambda>p3.
                if length_squared (cross_product (sub p2 p1) (sub p3 p1)) < 1 / 10 ^ 12
                then Inr False else Inr True)))))))
      else Inr True)"


section \<open>repair\_geometry.py: triangulation\<close>

text \<open>Newell's method, \<^verbatim>\<open>get_normal\<close>.\<close>

definition normal_step ::
  "vertex list \<Rightarrow> error + rat \<times> rat \<times> rat \<Rightarrow> nat \<Rightarrow> error + rat \<times> rat \<times> rat" where
  "normal_step points acc i =
     bind_err acc (\<lambda>(nx, ny, nz).
     bind_err (coords3 (points ! i)) (\<lambda>(p10, p11, p12).
     bind_err (coords3 (points ! ((i + 1) mod length points))) (\<lambda>(p20, p21, p22).
       Inr (nx + (p11 - p21) * (p12 + p22),
            ny + (p12 - p22) * (p10 + p20),
            nz + (p10 - p20) * (p11 + p21)))))"

definition get_normal :: "vertex list \<Rightarrow> error + rat \<times> rat \<times> rat" where
  "get_normal points = foldl (normal_step points) (Inr (0, 0, 0)) [0..<length points]"

text \<open>
  The choice of the two axes kept by the projection, written inline in
  \<^verbatim>\<open>triangulate_face\<close> (the \<open>chooseProjectionAxes\<close> of the specification).
\<close>

definition projection_axes :: "rat \<times> rat \<times> rat \<Rightarrow> nat \<times> nat" where
  "projection_axes normal =
     (case normal of (n0, n1, n2) \<Rightarrow>
        if \<bar>n2\<bar> > \<bar>n0\<bar> \<and> \<bar>n2\<bar> > \<bar>n1\<bar> then (0, 1)
        else if \<bar>n0\<bar> > \<bar>n1\<bar> then (1, 2) else (0, 2))"

text \<open>\<^verbatim>\<open>for p in points: vertices_2d.extend([p[ax1], p[ax2]])\<close>\<close>

fun project :: "nat \<Rightarrow> nat \<Rightarrow> vertex list \<Rightarrow> error + num list" where
  "project ax1 ax2 [] = Inr []"
| "project ax1 ax2 (p # ps) =
     bind_err (py_index p (int ax1)) (\<lambda>a.
     bind_err (py_index p (int ax2)) (\<lambda>b.
     bind_err (project ax1 ax2 ps) (\<lambda>rest. Inr (a # b # rest))))"

text \<open>The loop over the interior rings, with \<^verbatim>\<open>vertices_2d\<close> and \<^verbatim>\<open>hole_indices\<close> as state.\<close>

fun project_holes ::
  "vertex list \<Rightarrow> nat \<Rightarrow> nat \<Rightarrow> num list \<times> nat list \<Rightarrow> int list list \<Rightarrow> error + num list \<times> nat list"
where
  "project_holes new_vertices ax1 ax2 (vertices_2d, hole_indices) [] =
     Inr (vertices_2d, hole_indices)"
| "project_holes new_vertices ax1 ax2 (vertices_2d, hole_indices) (hole_ring_indices # rest) =
     bind_err (emap (py_index new_vertices) hole_ring_indices) (\<lambda>hole_points.
     bind_err (project ax1 ax2 hole_points) (\<lambda>pts.
       project_holes new_vertices ax1 ax2
         (vertices_2d @ pts, hole_indices @ [length vertices_2d div 2]) rest))"

text \<open>
  The loop that maps the triangulator's answer back: \<^verbatim>\<open>result[i+1]\<close> or \<^verbatim>\<open>result[i+2]\<close>
  past the end raises IndexError, as does an index outside \<^verbatim>\<open>all_indices\<close>.
\<close>

fun build_triangles :: "int list \<Rightarrow> int list \<Rightarrow> error + int list list" where
  "build_triangles all_indices [] = Inr []"
| "build_triangles all_indices (a # b # c # rest) =
     bind_err (py_index all_indices a) (\<lambda>x.
     bind_err (py_index all_indices b) (\<lambda>y.
     bind_err (py_index all_indices c) (\<lambda>z.
     bind_err (build_triangles all_indices rest) (\<lambda>new_triangles.
       Inr ([x, y, z] # new_triangles)))))"
| "build_triangles all_indices [a] = Inl IndexError"
| "build_triangles all_indices [a, b] = Inl IndexError"

text \<open>
  \<open>earcut\<close> is the imported triangulator: from the flat 2D buffer and the hole offsets
  (dimension 2) to a flat list of point indices. It is a parameter.
\<close>

definition triangulate_face ::
  "(num list \<Rightarrow> nat list \<Rightarrow> int list) \<Rightarrow> vertex list \<Rightarrow> int list list \<Rightarrow> error + int list list"
where
  "triangulate_face earcut new_vertices face_rings_indices =
     (case face_rings_indices of
        [] \<Rightarrow> Inl IndexError
      | exterior_ring_indices # holes \<Rightarrow>
          if card (set exterior_ring_indices) < 3 then Inr []
          else
            bind_err (emap (py_index new_vertices) exterior_ring_indices) (\<lambda>exterior_points.
            bind_err (get_normal exterior_points) (\<lambda>normal.
            case projection_axes normal of (ax1, ax2) \<Rightarrow>
            bind_err (project ax1 ax2 exterior_points) (\<lambda>ext_2d.
            bind_err (project_holes new_vertices ax1 ax2 (ext_2d, []) holes)
              (\<lambda>(vertices_2d, hole_indices).
                 let result = earcut vertices_2d hole_indices;
                     all_indices = exterior_ring_indices @ concat holes
                 in build_triangles all_indices result)))))"

text \<open>
  The main loop of repair\_geometry.py for one geometry: every index of every ring of
  every face is replaced through \<^verbatim>\<open>index_mapping\<close>, then every face is triangulated and
  each triangle becomes a face of one ring.
\<close>

definition repair_boundaries ::
  "(num list \<Rightarrow> nat list \<Rightarrow> int list) \<Rightarrow> vertex list \<Rightarrow> int list \<Rightarrow> int list list list
     \<Rightarrow> error + int list list list"
where
  "repair_boundaries earcut new_vertices index_mapping boundaries =
     bind_err (emap (emap (emap (py_index index_mapping))) boundaries) (\<lambda>updated_boundaries.
     bind_err (emap (triangulate_face earcut new_vertices) updated_boundaries) (\<lambda>triangles.
       Inr (concat (map (map (\<lambda>triangle. [triangle])) triangles))))"

definition repair_geometry ::
  "(num list \<Rightarrow> nat list \<Rightarrow> int list) \<Rightarrow> int \<Rightarrow> vertex list \<Rightarrow> int list list list
     \<Rightarrow> error + vertex list \<times> int list list list"
where
  "repair_geometry earcut p old_vertices boundaries =
     (case weld_string p old_vertices of
        (new_vertices, index_mapping) \<Rightarrow>
          bind_err (repair_boundaries earcut new_vertices index_mapping boundaries)
            (\<lambda>new_boundaries. Inr (new_vertices, new_boundaries)))"


section \<open>The welding loop in general\<close>

text \<open>
  Both scripts run the same loop and differ in the key and in the container of the index
  map. \<open>weld_by\<close> is that loop for any key function, with the index map as the list of
  new indices; \<open>tuple_view\<close> and \<open>string_view\<close> give the state of each script's loop
  in terms of it. \<open>first_occ key vs k\<close> is the position of the first vertex of \<open>vs\<close>
  whose key is \<open>k\<close>.
\<close>

fun weld_step :: "('v \<Rightarrow> 'k) \<Rightarrow> 'v list \<times> ('k \<rightharpoonup> nat) \<times> nat list \<Rightarrow> 'v \<Rightarrow> 'v list \<times> ('k \<rightharpoonup> nat) \<times> nat list" where
  "weld_step key (nv, m, im) v =
     (case m (key v) of
        Some j \<Rightarrow> (nv, m, im @ [j])
      | None \<Rightarrow> (nv @ [v], m(key v \<mapsto> length nv), im @ [length nv]))"

definition weld_by :: "('v \<Rightarrow> 'k) \<Rightarrow> 'v list \<Rightarrow> 'v list \<times> ('k \<rightharpoonup> nat) \<times> nat list" where
  "weld_by key vs = foldl (weld_step key) ([], Map.empty, []) vs"

definition first_occ :: "('v \<Rightarrow> 'k) \<Rightarrow> 'v list \<Rightarrow> 'k \<Rightarrow> nat" where
  "first_occ key vs k = length (takeWhile (\<lambda>v. key v \<noteq> k) vs)"

definition remap_of :: "nat list \<Rightarrow> (int \<rightharpoonup> int)" where
  "remap_of im = (\<lambda>i. if 0 \<le> i \<and> i < int (length im) then Some (int (im ! nat i)) else None)"

definition tuple_view :: "vertex list \<times> (rat list \<rightharpoonup> nat) \<times> nat list \<Rightarrow> tuple_state" where
  "tuple_view s = (case s of (nv, m, im) \<Rightarrow> (nv, map_option int \<circ> m, remap_of im))"

definition string_view :: "nat \<Rightarrow> vertex list \<times> (string \<rightharpoonup> nat) \<times> nat list \<Rightarrow> string_state" where
  "string_view n s =
     (case s of (nv, m, im) \<Rightarrow>
        (nv, map_option int \<circ> m, map int im @ replicate (n - length im) (- 1), int (length nv)))"

definition weld_inv :: "('v \<Rightarrow> 'k) \<Rightarrow> 'v list \<Rightarrow> 'v list \<times> ('k \<rightharpoonup> nat) \<times> nat list \<Rightarrow> bool" where
  "weld_inv key vs s =
     (case s of (nv, m, im) \<Rightarrow>
        length im = length vs \<and> length nv \<le> length vs \<and>
        (\<forall>k j. m k = Some j \<longleftrightarrow> j < length nv \<and> key (nv ! j) = k) \<and>
        (\<forall>k. m k = None \<longleftrightarrow> k \<notin> key ` set vs) \<and>
        (\<forall>j < length nv. nv ! j = vs ! first_occ key vs (key (nv ! j))) \<and>
        (\<forall>i < length vs. m (key (vs ! i)) = Some (im ! i)))"

section \<open>Rings and leaves of a nested boundary\<close>

text \<open>
  \<open>rings b\<close> lists the rings that \<^verbatim>\<open>process_boundary\<close> meets in \<open>b\<close>: the lists whose first
  element is an index. \<open>leaves b\<close> lists every index of \<open>b\<close>.
\<close>

fun rings :: "node \<Rightarrow> node list list"
  and rings_list :: "node list \<Rightarrow> node list list"
where
  "rings (I i) = []"
| "rings (L []) = []"
| "rings (L (I i # rest)) = [I i # rest]"
| "rings (L (L xs # rest)) = rings_list (L xs # rest)"
| "rings_list [] = []"
| "rings_list (b # bs) = rings b @ rings_list bs"

fun leaves :: "node \<Rightarrow> int list"
  and leaves_list :: "node list \<Rightarrow> int list"
where
  "leaves (I i) = [i]"
| "leaves (L bs) = leaves_list bs"
| "leaves_list [] = []"
| "leaves_list (b # bs) = leaves b @ leaves_list bs"

fun is_index :: "node \<Rightarrow> bool" where
  "is_index (I i) = True"
| "is_index (L xs) = False"

section \<open>What a checked ring and a checked triangle are\<close>




section \<open>Example data\<close>

definition triangle_vertices :: "vertex list" where
  "triangle_vertices =
     [[PFloat 0, PFloat 0, PFloat 0], [PFloat 1, PFloat 0, PFloat 0],
      [PFloat 0, PFloat 1, PFloat 0]]"


text \<open>
  A sliver that survives welding at precision 5: its squared cross product is \<open>1e-20\<close>.
\<close>

definition sliver_vertices :: "vertex list" where
  "sliver_vertices =
     [[PFloat 0, PFloat 0, PFloat 0], [PFloat (1 / 100000), PFloat 0, PFloat 0],
      [PFloat 0, PFloat (1 / 100000), PFloat 0]]"

text \<open>
  What an ear-clipper answers on a ring of three points that are not collinear in the
  plane: the one triangle.
\<close>

definition earcut_three_points :: "num list \<Rightarrow> nat list \<Rightarrow> int list" where
  "earcut_three_points vertices_2d hole_indices = [1, 2, 0]"


section \<open>Welding: the loops and their invariant\<close>

lemma weld_by_snoc: "weld_by key (xs @ [x]) = weld_step key (weld_by key xs) x"
  by (simp add: weld_by_def)

lemma first_occ_snoc_in:
  "k \<in> key ` set xs \<Longrightarrow> first_occ key (xs @ ys) k = first_occ key xs k"
  unfolding first_occ_def by (induction xs) auto

lemma first_occ_snoc_notin:
  "k \<notin> key ` set xs \<Longrightarrow> first_occ key (xs @ [x]) k = (if key x = k then length xs else Suc (length xs))"
  unfolding first_occ_def by (induction xs) auto

lemma first_occ_less:
  "k \<in> key ` set xs \<Longrightarrow> first_occ key xs k < length xs"
  unfolding first_occ_def by (induction xs) auto

lemma first_occ_key:
  "k \<in> key ` set xs \<Longrightarrow> key (xs ! first_occ key xs k) = k"
  unfolding first_occ_def by (induction xs) auto

lemma first_occ_le: "i < length xs \<Longrightarrow> first_occ key xs (key (xs ! i)) \<le> i"
  unfolding first_occ_def
proof (induction xs arbitrary: i)
  case Nil
  then show ?case by simp
next
  case (Cons a xs)
  then show ?case by (cases i) auto
qed

lemma weld_inv_step:
  assumes "weld_inv key xs s"
  shows "weld_inv key (xs @ [x]) (weld_step key s x)"
proof -
  obtain nv m im where s: "s = (nv, m, im)" by (cases s)
  from assms have len: "length im = length xs" and le: "length nv \<le> length xs"
    and m_some: "\<And>k j. m k = Some j \<longleftrightarrow> j < length nv \<and> key (nv ! j) = k"
    and m_none: "\<And>k. m k = None \<longleftrightarrow> k \<notin> key ` set xs"
    and firsts: "\<And>j. j < length nv \<Longrightarrow> nv ! j = xs ! first_occ key xs (key (nv ! j))"
    and im: "\<And>i. i < length xs \<Longrightarrow> m (key (xs ! i)) = Some (im ! i)"
    unfolding s weld_inv_def by auto
  have seen: "key (nv ! j) \<in> key ` set xs" if "j < length nv" for j
  proof -
    have "m (key (nv ! j)) = Some j" using that m_some by blast
    then show ?thesis using m_none[of "key (nv ! j)"] by auto
  qed
  have old_first: "nv ! j = (xs @ [x]) ! first_occ key (xs @ [x]) (key (nv ! j))"
    if "j < length nv" for j
    using that seen[OF that] firsts[OF that]
    by (simp add: first_occ_snoc_in nth_append first_occ_less)
  show ?thesis
  proof (cases "m (key x)")
    case None
    then have notin: "key x \<notin> key ` set xs" using m_none by blast
    have fresh: "key (nv ! j) \<noteq> key x" if "j < length nv" for j
      using seen[OF that] notin by auto
    have c2: "(m(key x \<mapsto> length nv)) k = Some j \<longleftrightarrow>
                j < length (nv @ [x]) \<and> key ((nv @ [x]) ! j) = k" for k j
      using m_some fresh None by (auto simp: nth_append less_Suc_eq)
    have c3: "(m(key x \<mapsto> length nv)) k = None \<longleftrightarrow> k \<notin> key ` set (xs @ [x])" for k
      using m_none by auto
    have c4: "(nv @ [x]) ! j = (xs @ [x]) ! first_occ key (xs @ [x]) (key ((nv @ [x]) ! j))"
      if "j < length (nv @ [x])" for j
    proof (cases "j < length nv")
      case True
      then show ?thesis using old_first by (simp add: nth_append)
    next
      case False
      then have "j = length nv" using that by simp
      then show ?thesis using notin by (simp add: first_occ_snoc_notin)
    qed
    have other: "key (xs ! i) \<noteq> key x" if "i < length xs" for i
      using notin nth_mem[OF that] by (metis imageI)
    have c5: "(m(key x \<mapsto> length nv)) (key ((xs @ [x]) ! i)) = Some ((im @ [length nv]) ! i)"
      if "i < length (xs @ [x])" for i
      using that im len other by (auto simp: nth_append less_Suc_eq)
    have "weld_step key s x = (nv @ [x], m(key x \<mapsto> length nv), im @ [length nv])"
      using None by (simp add: s)
    then show ?thesis
      unfolding weld_inv_def using len le c2 c3 c4 c5 by simp
  next
    case (Some j)
    then have isin: "key x \<in> key ` set xs" using m_none[of "key x"] by auto
    have c3: "m k = None \<longleftrightarrow> k \<notin> key ` set (xs @ [x])" for k
      using m_none isin by auto
    have c5: "m (key ((xs @ [x]) ! i)) = Some ((im @ [j]) ! i)"
      if "i < length (xs @ [x])" for i
      using that im len Some by (auto simp: nth_append less_Suc_eq)
    have "weld_step key s x = (nv, m, im @ [j])"
      using Some by (simp add: s)
    then show ?thesis
      unfolding weld_inv_def using len le m_some c3 old_first c5 by simp
  qed
qed

lemma weld_inv_weld_by: "weld_inv key vs (weld_by key vs)"
proof (induction vs rule: rev_induct)
  case Nil
  show ?case by (simp add: weld_by_def weld_inv_def)
next
  case (snoc x xs)
  then show ?case by (simp add: weld_by_snoc weld_inv_step)
qed


lemma weld_by_length: "weld_by key vs = (nv, m, im) \<Longrightarrow> length im = length vs"
  using weld_inv_weld_by[of key vs] by (simp add: weld_inv_def)

lemma remap_of_snoc: "remap_of (im @ [j]) = (remap_of im)(int (length im) \<mapsto> int j)"
  by (rule ext) (auto simp: remap_of_def nth_append)

lemma map_option_comp_upd:
  "map_option f \<circ> (m(k \<mapsto> v)) = (map_option f \<circ> m)(k \<mapsto> f v)"
  by (rule ext) simp

lemma tuple_step_view:
  assumes "length (snd (snd s)) = n"
  shows "weld_tuple_step p (tuple_view s) (n, x) = tuple_view (weld_step (rounded_tuple p) s x)"
proof -
  obtain nv m im where s: "s = (nv, m, im)" by (cases s)
  show ?thesis
  proof (cases "m (rounded_tuple p x)")
    case None
    then show ?thesis using assms
      by (simp add: s tuple_view_def remap_of_snoc map_option_comp_upd Let_def)
  next
    case (Some j)
    then show ?thesis using assms
      by (simp add: s tuple_view_def remap_of_snoc)
  qed
qed

lemma weld_tuple_loop_view:
  "weld_tuple_loop p vs = tuple_view (weld_by (rounded_tuple p) vs)"
proof (induction vs rule: rev_induct)
  case Nil
  show ?case
    by (simp add: weld_tuple_loop_def weld_by_def tuple_view_def remap_of_def fun_eq_iff)
next
  case (snoc x xs)
  obtain nv m im where w: "weld_by (rounded_tuple p) xs = (nv, m, im)"
    by (cases "weld_by (rounded_tuple p) xs")
  have len: "length (snd (snd (weld_by (rounded_tuple p) xs))) = length xs"
    using weld_by_length[OF w] w by simp
  have "weld_tuple_loop p (xs @ [x]) = weld_tuple_step p (weld_tuple_loop p xs) (length xs, x)"
    by (simp add: weld_tuple_loop_def enumerate_append_eq)
  then show ?case
    using snoc tuple_step_view[OF len] by (simp add: weld_by_snoc)
qed

lemma string_step_view:
  assumes "length (snd (snd s)) = i" and "i < n"
  shows "weld_string_step p (string_view n s) (i, x) = string_view n (weld_step (vertex_key p) s x)"
proof -
  obtain nv m im where s: "s = (nv, m, im)" by (cases s)
  have len: "length im = i" using assms(1) by (simp add: s)
  have upd: "(map int im @ replicate (n - length im) (- 1))[i := j]
             = map int im @ j # replicate (n - Suc (length im)) (- 1)" for j :: int
  proof -
    have "replicate (n - length im) (- 1 :: int) = (- 1) # replicate (n - Suc (length im)) (- 1)"
      using assms(2) len by (metis Suc_diff_Suc replicate_Suc)
    then show ?thesis using len by (simp add: list_update_append)
  qed
  show ?thesis
  proof (cases "m (vertex_key p x)")
    case None
    then show ?thesis using upd
      by (simp add: s string_view_def map_option_comp_upd)
  next
    case (Some j)
    then show ?thesis using upd
      by (simp add: s string_view_def)
  qed
qed

lemma weld_string_fold_view:
  "length xs \<le> n \<Longrightarrow>
   foldl (weld_string_step p) ([], Map.empty, replicate n (- 1), 0) (enumerate 0 xs)
     = string_view n (weld_by (vertex_key p) xs)"
proof (induction xs rule: rev_induct)
  case Nil
  show ?case by (simp add: weld_by_def string_view_def fun_eq_iff)
next
  case (snoc x xs)
  obtain nv m im where w: "weld_by (vertex_key p) xs = (nv, m, im)"
    by (cases "weld_by (vertex_key p) xs")
  have len: "length (snd (snd (weld_by (vertex_key p) xs))) = length xs"
    using weld_by_length[OF w] w by simp
  have lt: "length xs < n" using snoc.prems by simp
  show ?case
    using snoc string_step_view[OF len lt]
    by (simp add: weld_by_snoc enumerate_append_eq)
qed

lemma weld_string_loop_view:
  "weld_string_loop p vs = string_view (length vs) (weld_by (vertex_key p) vs)"
  unfolding weld_string_loop_def by (rule weld_string_fold_view) simp

lemma weld_tuple_eq:
  "weld_by (rounded_tuple p) vs = (nv, m, im) \<Longrightarrow> weld_tuple p vs = (nv, remap_of im)"
  by (simp add: weld_tuple_def weld_tuple_loop_view tuple_view_def)

lemma weld_string_eq:
  "weld_by (vertex_key p) vs = (nv, m, im) \<Longrightarrow> weld_string p vs = (nv, map int im)"
  using weld_by_length[of "vertex_key p" vs nv m im]
  by (simp add: weld_string_def weld_string_loop_view string_view_def)


lemma weld_by_first:
  assumes "weld_by key vs = (nv, m, im)"
  shows "length nv \<le> length vs"
    and "length im = length vs"
    and "i < length vs \<Longrightarrow> im ! i < length nv"
    and "i < length vs \<Longrightarrow> nv ! (im ! i) = vs ! first_occ key vs (key (vs ! i))"
    and "i < length vs \<Longrightarrow> first_occ key vs (key (vs ! i)) \<le> i"
    and "i < length vs \<Longrightarrow> im ! first_occ key vs (key (vs ! i)) = im ! i"
    and "i < length vs \<Longrightarrow> i' < length vs \<Longrightarrow> key (vs ! i) = key (vs ! i') \<Longrightarrow> im ! i = im ! i'"
proof -
  from weld_inv_weld_by[of key vs] assms
  have len: "length im = length vs" and le: "length nv \<le> length vs"
    and m_some: "\<And>k j. m k = Some j \<longleftrightarrow> j < length nv \<and> key (nv ! j) = k"
    and firsts: "\<And>j. j < length nv \<Longrightarrow> nv ! j = vs ! first_occ key vs (key (nv ! j))"
    and im: "\<And>i. i < length vs \<Longrightarrow> m (key (vs ! i)) = Some (im ! i)"
    unfolding weld_inv_def by auto
  show "length nv \<le> length vs" by (rule le)
  show "length im = length vs" by (rule len)
  show "first_occ key vs (key (vs ! i)) \<le> i" if i: "i < length vs"
    using i by (rule first_occ_le)
  show "im ! i = im ! i'" if "i < length vs" "i' < length vs" "key (vs ! i) = key (vs ! i')"
    using im[OF that(1)] im[OF that(2)] that(3) by simp
  have ab: "im ! i < length nv \<and> key (nv ! (im ! i)) = key (vs ! i)" if i: "i < length vs"
    using im[OF i] m_some by blast
  show "im ! i < length nv" if i: "i < length vs"
    using ab[OF i] by simp
  show "nv ! (im ! i) = vs ! first_occ key vs (key (vs ! i))" if i: "i < length vs"
    using ab[OF i] firsts[of "im ! i"] by simp
  show "im ! first_occ key vs (key (vs ! i)) = im ! i" if i: "i < length vs"
  proof -
    let ?k = "key (vs ! i)"
    have isin: "?k \<in> key ` set vs" using i by auto
    have fo: "first_occ key vs ?k < length vs" using isin by (rule first_occ_less)
    have "m (key (vs ! first_occ key vs ?k)) = Some (im ! first_occ key vs ?k)"
      using im[OF fo] .
    then show ?thesis
      using im[OF i] by (simp add: first_occ_key[OF isin])
  qed
qed

lemma weld_by_keys_distinct:
  assumes "weld_by key vs = (nv, m, im)"
  shows "distinct (map key nv)"
proof -
  from weld_inv_weld_by[of key vs] assms
  have m_some: "\<And>k j. m k = Some j \<longleftrightarrow> j < length nv \<and> key (nv ! j) = k"
    unfolding weld_inv_def by auto
  have "i = j" if "i < length nv" "j < length nv" "key (nv ! i) = key (nv ! j)" for i j
  proof -
    have "m (key (nv ! i)) = Some i" "m (key (nv ! i)) = Some j"
      using that m_some by auto
    then show ?thesis by simp
  qed
  then show ?thesis by (auto simp: distinct_conv_nth)
qed

lemma weld_by_distinct:
  "distinct (map key xs) \<Longrightarrow> \<exists>m. weld_by key xs = (xs, m, [0..<length xs])"
proof (induction xs rule: rev_induct)
  case Nil
  show ?case by (simp add: weld_by_def)
next
  case (snoc x xs)
  then obtain m where w: "weld_by key xs = (xs, m, [0..<length xs])" by auto
  have notin: "key x \<notin> key ` set xs" using snoc.prems by auto
  have "m (key x) = None"
    using weld_inv_weld_by[of key xs] notin unfolding w weld_inv_def by simp
  then show ?case by (simp add: weld_by_snoc w)
qed

lemma remap_of_upt:
  "remap_of [0..<n] = (\<lambda>i. if 0 \<le> i \<and> i < int n then Some i else None)"
  by (rule ext) (auto simp: remap_of_def)


lemma remap_of_nat: "i < length im \<Longrightarrow> remap_of im (int i) = Some (int (im ! i))"
  by (simp add: remap_of_def)


lemma weld_by_subset:
  assumes "weld_by key vs = (nv, m, im)"
  shows "set nv \<subseteq> set vs"
proof
  fix v assume "v \<in> set nv"
  then obtain j where j: "j < length nv" and v: "v = nv ! j" by (auto simp: in_set_conv_nth)
  from weld_inv_weld_by[of key vs] assms
  have m_some: "\<And>k j. m k = Some j \<longleftrightarrow> j < length nv \<and> key (nv ! j) = k"
    and m_none: "\<And>k. m k = None \<longleftrightarrow> k \<notin> key ` set vs"
    and firsts: "\<And>j. j < length nv \<Longrightarrow> nv ! j = vs ! first_occ key vs (key (nv ! j))"
    unfolding weld_inv_def by auto
  have "m (key (nv ! j)) = Some j" using j m_some by blast
  then have "key (nv ! j) \<in> key ` set vs" using m_none[of "key (nv ! j)"] by auto
  then have "first_occ key vs (key (nv ! j)) < length vs" by (rule first_occ_less)
  then have "vs ! first_occ key vs (key (nv ! j)) \<in> set vs" by (rule nth_mem)
  then show "v \<in> set vs" using firsts[OF j] v by simp
qed

section \<open>Claims about welding\<close>




text \<open>
  C5. Welding is idempotent: welding the welded vertex list again at the same precision
  returns the same vertex list, and the index map is the identity on its indices (for the
  dict of fix\_triangles.py: defined exactly on \<open>0 \<le> i < length\<close>, with value \<open>i\<close>).
\<close>

theorem weld_idempotent:
  "(case weld_tuple p vs of (new_vertices, index_remap) \<Rightarrow>
      weld_tuple p new_vertices =
        (new_vertices, \<lambda>i. if 0 \<le> i \<and> i < int (length new_vertices) then Some i else None))
   \<and>
   (case weld_string p vs of (new_vertices, index_mapping) \<Rightarrow>
      weld_string p new_vertices = (new_vertices, map int [0..<length new_vertices]))"
proof
  obtain nv m im where w: "weld_by (rounded_tuple p) vs = (nv, m, im)"
    by (cases "weld_by (rounded_tuple p) vs")
  obtain m' where "weld_by (rounded_tuple p) nv = (nv, m', [0..<length nv])"
    using weld_by_distinct[OF weld_by_keys_distinct[OF w]] by blast
  then show "case weld_tuple p vs of (new_vertices, index_remap) \<Rightarrow>
      weld_tuple p new_vertices =
        (new_vertices, \<lambda>i. if 0 \<le> i \<and> i < int (length new_vertices) then Some i else None)"
    unfolding weld_tuple_eq[OF w] by (simp add: weld_tuple_eq remap_of_upt)
next
  obtain nv m im where w: "weld_by (vertex_key p) vs = (nv, m, im)"
    by (cases "weld_by (vertex_key p) vs")
  obtain m' where "weld_by (vertex_key p) nv = (nv, m', [0..<length nv])"
    using weld_by_distinct[OF weld_by_keys_distinct[OF w]] by blast
  then show "case weld_string p vs of (new_vertices, index_mapping) \<Rightarrow>
      weld_string p new_vertices = (new_vertices, map int [0..<length new_vertices])"
    unfolding weld_string_eq[OF w] by (simp add: weld_string_eq)
qed



text \<open>
  The two loops give the same welded list and the same index map on every input on which
  the string key and the tuple key separate the same vertices.
\<close>

lemma weld_by_same_partition:
  assumes "\<forall>u \<in> set vs. \<forall>v \<in> set vs. key1 u = key1 v \<longleftrightarrow> key2 u = key2 v"
  shows "fst (weld_by key1 vs) = fst (weld_by key2 vs) \<and>
         snd (snd (weld_by key1 vs)) = snd (snd (weld_by key2 vs))"
  using assms
proof (induction vs rule: rev_induct)
  case Nil
  show ?case by (simp add: weld_by_def)
next
  case (snoc x xs)
  obtain nv1 m1 im1 where w1: "weld_by key1 xs = (nv1, m1, im1)" by (cases "weld_by key1 xs")
  obtain nv2 m2 im2 where w2: "weld_by key2 xs = (nv2, m2, im2)" by (cases "weld_by key2 xs")
  have same: "\<forall>u \<in> set xs. \<forall>v \<in> set xs. key1 u = key1 v \<longleftrightarrow> key2 u = key2 v"
    using snoc.prems by simp
  from snoc.IH[OF same] w1 w2 have nv: "nv2 = nv1" and im: "im2 = im1" by simp_all
  from weld_inv_weld_by[of key1 xs] w1
  have s1: "\<And>k j. m1 k = Some j \<longleftrightarrow> j < length nv1 \<and> key1 (nv1 ! j) = k"
    unfolding weld_inv_def by auto
  from weld_inv_weld_by[of key2 xs] w2
  have s2: "\<And>k j. m2 k = Some j \<longleftrightarrow> j < length nv1 \<and> key2 (nv1 ! j) = k"
    unfolding weld_inv_def nv by auto
  have sub: "set nv1 \<subseteq> set xs" using weld_by_subset[OF w1] .
  have x: "x \<in> set (xs @ [x])" by simp
  have keys: "key1 u = key1 x \<longleftrightarrow> key2 u = key2 x" if "u \<in> set (xs @ [x])" for u
    using snoc.prems that x by blast
  have eq: "m1 (key1 x) = m2 (key2 x)"
  proof (cases "m1 (key1 x)")
    case None
    have "m2 (key2 x) \<noteq> Some j" for j
    proof
      assume "m2 (key2 x) = Some j"
      then have j: "j < length nv1" and k: "key2 (nv1 ! j) = key2 x" using s2 by auto
      have "nv1 ! j \<in> set (xs @ [x])" using sub j by (auto simp: subset_iff)
      then have "key1 (nv1 ! j) = key1 x" using keys k by blast
      then have "m1 (key1 x) = Some j" using s1 j by blast
      then show False using None by simp
    qed
    then show ?thesis using None by (cases "m2 (key2 x)") auto
  next
    case (Some j)
    then have j: "j < length nv1" and k: "key1 (nv1 ! j) = key1 x" using s1 by auto
    have "nv1 ! j \<in> set (xs @ [x])" using sub j by (auto simp: subset_iff)
    then have "key2 (nv1 ! j) = key2 x" using keys k by blast
    then have "m2 (key2 x) = Some j" using s2 j by blast
    then show ?thesis using Some by simp
  qed
  show ?case
    unfolding weld_by_snoc w1 w2 nv im using eq
    by (cases "m2 (key2 x)") simp_all
qed

lemma welds_agree_on_same_partition:
  assumes "\<forall>u \<in> set vs. \<forall>v \<in> set vs.
             rounded_tuple p u = rounded_tuple p v \<longleftrightarrow> vertex_key p u = vertex_key p v"
  shows "fst (weld_tuple p vs) = fst (weld_string p vs) \<and>
         (\<forall>i<length vs. snd (weld_tuple p vs) (int i) = Some (snd (weld_string p vs) ! i))"
proof -
  obtain nv m im where w1: "weld_by (rounded_tuple p) vs = (nv, m, im)"
    by (cases "weld_by (rounded_tuple p) vs")
  obtain nv' m' im' where w2: "weld_by (vertex_key p) vs = (nv', m', im')"
    by (cases "weld_by (vertex_key p) vs")
  from weld_by_same_partition[OF assms] w1 w2 have e: "nv' = nv" "im' = im" by simp_all
  have "length im = length vs" using weld_by_first(2)[OF w1] .
  then show ?thesis
    unfolding weld_tuple_eq[OF w1] weld_string_eq[OF w2] e
    by (simp add: remap_of_nat)
qed

text \<open>
  C9. The two loops do not always agree at equal precision. \<open>-0.000001\<close> rounds to
  \<open>-0.0\<close> and \<open>0.000001\<close> to \<open>0.0\<close>; the tuple keys \<open>(0.0, 0.0, -0.0)\<close> and
  \<open>(0.0, 0.0, 0.0)\<close> are equal, the string keys \<open>0.0_0.0_-0.0\<close> and \<open>0.0_0.0_0.0\<close> are
  not: the tuple-keyed loop merges the two vertices, the string-keyed loop keeps both.
  The same happens between an int and a float of the same value (\<open>0_0_0\<close> and
  \<open>0_0_0.0\<close>).
\<close>

theorem weld_keys_diverge:
  "vertex_key 5 [PFloat 0, PFloat 0, PFloat (- 1 / 1000000)] = ''0.0_0.0_-0.0'' \<and>
   vertex_key 5 [PFloat 0, PFloat 0, PFloat (1 / 1000000)] = ''0.0_0.0_0.0'' \<and>
   weld_string 5 [[PFloat 0, PFloat 0, PFloat (- 1 / 1000000)],
                  [PFloat 0, PFloat 0, PFloat (1 / 1000000)]]
     = ([[PFloat 0, PFloat 0, PFloat (- 1 / 1000000)],
         [PFloat 0, PFloat 0, PFloat (1 / 1000000)]], [0, 1]) \<and>
   fst (weld_tuple 5 [[PFloat 0, PFloat 0, PFloat (- 1 / 1000000)],
                      [PFloat 0, PFloat 0, PFloat (1 / 1000000)]])
     = [[PFloat 0, PFloat 0, PFloat (- 1 / 1000000)]] \<and>
   snd (weld_tuple 5 [[PFloat 0, PFloat 0, PFloat (- 1 / 1000000)],
                      [PFloat 0, PFloat 0, PFloat (1 / 1000000)]]) 1 = Some 0 \<and>
   vertex_key 5 [PInt 0, PInt 0, PInt 0] = ''0_0_0'' \<and>
   vertex_key 5 [PInt 0, PInt 0, PFloat (1 / 1000000)] = ''0_0_0.0'' \<and>
   snd (weld_string 5 [[PInt 0, PInt 0, PInt 0], [PInt 0, PInt 0, PFloat (1 / 1000000)]])
     = [0, 1] \<and>
   snd (weld_tuple 5 [[PInt 0, PInt 0, PInt 0], [PInt 0, PInt 0, PFloat (1 / 1000000)]]) 1
     = Some 0"
  by code_simp

section \<open>The projection axes\<close>

text \<open>
  C6, as stated: the retained axes are (X, Y) whenever \<open>|nz|\<close> is maximal, ties included.
  For the normal \<open>(1, 0, 1)\<close>, \<open>|nz|\<close> is maximal (tied with \<open>|nx|\<close>) and the code
  retains (Y, Z).
\<close>

theorem projection_axes_tie_counterexample:
  "\<bar>1 :: rat\<bar> \<ge> \<bar>1\<bar> \<and> \<bar>1 :: rat\<bar> \<ge> \<bar>0\<bar> \<and> projection_axes (1, 0, 1) = (1, 2) \<and>
   projection_axes (1, 0, 1) \<noteq> (0, 1)"
  by (simp add: projection_axes_def)

text \<open>
  C6, amended. The code drops an axis whose normal component has the largest absolute
  value, and on ties it prefers dropping Y, then X, then Z: the retained axes are (X, Z)
  whenever \<open>|ny|\<close> is maximal (ties included), (Y, Z) whenever \<open>|nx|\<close> is strictly greater
  than \<open>|ny|\<close> and at least \<open>|nz|\<close>, and (X, Y) only when \<open>|nz|\<close> is strictly greater than
  both others.
\<close>

theorem projection_axes_ties:
  "(projection_axes (nx, ny, nz) = (0, 2) \<longleftrightarrow> \<bar>nx\<bar> \<le> \<bar>ny\<bar> \<and> \<bar>nz\<bar> \<le> \<bar>ny\<bar>) \<and>
   (projection_axes (nx, ny, nz) = (1, 2) \<longleftrightarrow> \<bar>ny\<bar> < \<bar>nx\<bar> \<and> \<bar>nz\<bar> \<le> \<bar>nx\<bar>) \<and>
   (projection_axes (nx, ny, nz) = (0, 1) \<longleftrightarrow> \<bar>nx\<bar> < \<bar>nz\<bar> \<and> \<bar>ny\<bar> < \<bar>nz\<bar>)"
  unfolding projection_axes_def by (simp split: if_splits) linarith

theorem projection_axes_ties_witness:
  "projection_axes (1, 1, 1) = (0, 2) \<and> projection_axes (1, 0, 1) = (1, 2) \<and>
   projection_axes (0, 0, 1) = (0, 1)"
  using projection_axes_ties[of 1 1 1] projection_axes_ties[of 1 0 1]
    projection_axes_ties[of 0 0 1]
  by simp


section \<open>The index test of \<^verbatim>\<open>is_degenerate_triangle\<close>\<close>

lemma bind_err_Inr_iff [simp]:
  "bind_err m f = Inr y \<longleftrightarrow> (\<exists>x. m = Inr x \<and> f x = Inr y)"
  by (cases m) (auto simp: bind_err_def)

lemma bind_err_Inr [simp]: "bind_err (Inr x) f = f x"
  by (simp add: bind_err_def)

lemma bind_err_Inl [simp]: "bind_err (Inl e) f = Inl e"
  by (simp add: bind_err_def)

text \<open>Equal indices and indices at or beyond the length are reported as degenerate.\<close>

lemma is_degenerate_triangle_guard:
  "idx0 = idx1 \<or> idx1 = idx2 \<or> idx0 = idx2 \<or> idx0 \<ge> int (length vertices)
     \<or> idx1 \<ge> int (length vertices) \<or> idx2 \<ge> int (length vertices)
   \<Longrightarrow> is_degenerate_triangle idx0 idx1 idx2 vertices = Inr True"
  by (auto simp: is_degenerate_triangle_def)


text \<open>
  C7. A negative index is not tested: \<^verbatim>\<open>is_degenerate_triangle(-1, 0, 1, vertices)\<close> on the
  three vertices \<open>(0,0,0), (1,0,0), (0,1,0)\<close> reads \<^verbatim>\<open>vertices[-1]\<close>, the last vertex, and
  answers \<open>False\<close>.
\<close>

theorem is_degenerate_triangle_negative_index:
  "is_degenerate_triangle (- 1) 0 1 triangle_vertices = Inr False"
  by code_simp


section \<open>What \<^verbatim>\<open>process_boundary\<close> returns for a ring\<close>

lemma remap_ring_nth:
  "remap_ring index_remap ring = Inr remapped \<Longrightarrow>
   length remapped = length ring \<and>
   (\<forall>k<length ring. \<exists>idx. ring ! k = I idx \<and> index_remap idx = Some (remapped ! k))"
proof (induction index_remap ring arbitrary: remapped rule: remap_ring.induct)
  case (1 index_remap)
  then show ?case by simp
next
  case (2 index_remap idx rest)
  then obtain j js where j: "index_remap idx = Some j"
    and js: "remap_ring index_remap rest = Inr js" and r: "remapped = j # js"
    by (auto split: option.splits)
  from "2.IH"[OF j js] j r show ?case
    by (auto simp: nth_Cons split: nat.splits)
next
  case (3 index_remap xs rest)
  then show ?case by simp
qed

lemma set_collapse: "set (collapse cleaned xs) = set cleaned \<union> set xs"
  by (induction cleaned xs rule: collapse.induct) auto

lemma set_clean_ring: "set (clean_ring xs) = set xs"
proof -
  let ?c = "collapse [] xs"
  have "set (butlast ?c) = set ?c" if "length ?c > 1" "hd ?c = last ?c"
  proof -
    have ne: "butlast ?c \<noteq> []" using that(1) by (cases ?c) (auto split: if_splits)
    have c: "?c = butlast ?c @ [last ?c]" using that(1) by (cases ?c) auto
    have "hd ?c = hd (butlast ?c)" using ne by (metis c hd_append2)
    then have "last ?c \<in> set (butlast ?c)" using ne that(2) by (metis hd_in_set)
    then show ?thesis using c by (metis Un_insert_right append_Nil2 insert_absorb list.simps(15) set_append)
  qed
  then show ?thesis by (auto simp: clean_ring_def Let_def set_collapse)
qed

lemma fromkeys_props:
  "distinct seen \<Longrightarrow> distinct (fromkeys seen xs) \<and> set (fromkeys seen xs) = set seen \<union> set xs"
  by (induction seen xs rule: fromkeys.induct) auto


text \<open>
  C1, amended. For every leaf ring that survives, \<^verbatim>\<open>process_boundary\<close> returns the remapped
  index sequence itself: as long as the input ring, its \<open>k\<close>-th index the image under the
  index map of the \<open>k\<close>-th input index, nothing collapsed and nothing trimmed. The cleaned
  sequence only decides survival (at least 3 distinct indices remain after cleaning).
\<close>

theorem process_boundary_returns_remapped:
  assumes "process_boundary index_remap vertices (L (I i # rest)) = Inr (Some out)"
  shows "\<exists>remapped.
           out = L (map I remapped) \<and> length remapped = length (I i # rest) \<and>
           (\<forall>k<length (I i # rest).
              \<exists>idx. (I i # rest) ! k = I idx \<and> index_remap idx = Some (remapped ! k)) \<and>
           3 \<le> length (fromkeys [] (clean_ring remapped))"
proof -
  from assms obtain remapped where rm: "remap_ring index_remap (I i # rest) = Inr remapped"
    and dec: "(let unique = fromkeys [] (clean_ring remapped)
       in if length unique = 3 then
            bind_err (is_degenerate_triangle (unique ! 0) (unique ! 1) (unique ! 2) vertices)
              (\<lambda>degenerate. Inr (if degenerate then None else Some (L (map I remapped))))
          else if length unique < 3 then Inr None
          else Inr (Some (L (map I remapped)))) = Inr (Some out)"
    unfolding process_boundary.simps process_ring_def by (auto simp del: remap_ring.simps)
  from dec have out: "out = L (map I remapped)"
    and three: "3 \<le> length (fromkeys [] (clean_ring remapped))"
    by (auto simp: Let_def split: if_splits)
  from remap_ring_nth[OF rm] out three show ?thesis by blast
qed

theorem process_boundary_returns_remapped_witness:
  "process_boundary (snd (weld_tuple 6 triangle_vertices)) triangle_vertices
     (L [I 0, I 1, I 1, I 2]) = Inr (Some (L [I 0, I 1, I 1, I 2])) \<and>
   (\<exists>remapped.
      L [I 0, I 1, I 1, I 2] = L (map I remapped) \<and>
      length remapped = length [I 0, I 1, I 1, I 2] \<and>
      (\<forall>k<length [I 0, I 1, I 1, I 2].
         \<exists>idx. [I 0, I 1, I 1, I 2] ! k = I idx \<and>
               snd (weld_tuple 6 triangle_vertices) idx = Some (remapped ! k)) \<and>
      3 \<le> length (fromkeys [] (clean_ring remapped)))"
proof -
  have e: "process_boundary (snd (weld_tuple 6 triangle_vertices)) triangle_vertices
     (L [I 0, I 1, I 1, I 2]) = Inr (Some (L [I 0, I 1, I 1, I 2]))"
    by code_simp
  show ?thesis using e process_boundary_returns_remapped[OF e] by (rule conjI)
qed

text \<open>
  C1, as stated: the rings \<open>[0,1,2,0]\<close> and \<open>[0,1,1,2]\<close> clean to \<open>[0,1,2]\<close>, but they are
  returned as they are.
\<close>

theorem process_boundary_uncleaned_counterexample:
  "fix_triangles 6 triangle_vertices [L [L [I 0, I 1, I 2, I 0]], L [L [I 0, I 1, I 1, I 2]]]
     = Inr (triangle_vertices, [L [L [I 0, I 1, I 2, I 0]], L [L [I 0, I 1, I 1, I 2]]]) \<and>
   clean_ring [0, 1, 2, 0] = [0, 1, 2] \<and> clean_ring [0, 1, 1, 2] = [0, 1, 2]"
  by code_simp



section \<open>An index outside the vertex array\<close>

lemma bind_err_isl: "isl m \<Longrightarrow> isl (bind_err m f)"
  by (cases m) auto

lemma remap_ring_missing:
  "I idx \<in> set ring \<Longrightarrow> index_remap idx = None \<Longrightarrow> isl (remap_ring index_remap ring)"
proof (induction ring)
  case Nil
  then show ?case by simp
next
  case (Cons x ring)
  show ?case
  proof (cases x)
    case (I i)
    show ?thesis
    proof (cases "index_remap i")
      case None
      then show ?thesis using I by simp
    next
      case (Some j)
      then have "i \<noteq> idx" using Cons.prems(2) by auto
      then have "isl (remap_ring index_remap ring)" using Cons I by simp
      then show ?thesis using I Some by (simp add: bind_err_isl)
    qed
  next
    case (L xs)
    then show ?thesis by simp
  qed
qed

lemma process_ring_missing:
  "I idx \<in> set ring \<Longrightarrow> index_remap idx = None \<Longrightarrow> isl (process_ring index_remap vertices ring)"
  unfolding process_ring_def by (rule bind_err_isl) (rule remap_ring_missing)

lemma process_missing:
  "(ring \<in> set (rings b) \<longrightarrow> I idx \<in> set ring \<longrightarrow> index_remap idx = None \<longrightarrow>
      isl (process_boundary index_remap vertices b))"
  "(ring \<in> set (rings_list bs) \<longrightarrow> I idx \<in> set ring \<longrightarrow> index_remap idx = None \<longrightarrow>
      isl (process_items index_remap vertices bs))"
proof (induction index_remap vertices b and index_remap vertices bs
    rule: process_boundary_process_items.induct)
  case (3 index_remap vertices i rest)
  show ?case
  proof (intro impI)
    assume "ring \<in> set (rings (L (I i # rest)))" and i: "I idx \<in> set ring"
      and n: "index_remap idx = None"
    then have "ring = I i # rest" by simp
    then show "isl (process_boundary index_remap vertices (L (I i # rest)))"
      using process_ring_missing[of idx ring index_remap vertices] i n by simp
  qed

next
  case (4 index_remap vertices xs rest)
  then show ?case by (auto intro: bind_err_isl)
next
  case (6 index_remap vertices item items)
  show ?case
  proof (intro impI)
    assume r: "ring \<in> set (rings_list (item # items))" and i: "I idx \<in> set ring"
      and n: "index_remap idx = None"
    show "isl (process_items index_remap vertices (item # items))"
    proof (cases "process_boundary index_remap vertices item")
      case (Inl e)
      then show ?thesis by simp
    next
      case (Inr result)
      then have "ring \<notin> set (rings item)" using "6.IH"(1) i n by auto
      then have "ring \<in> set (rings_list items)" using r by simp
      then have "isl (process_items index_remap vertices items)"
        using "6.IH"(2) i n by simp
      then show ?thesis using Inr by (cases "process_items index_remap vertices items") auto
    qed
  qed
qed simp_all


lemma remap_ring_error:
  "\<forall>x \<in> set ring. is_index x \<Longrightarrow> remap_ring index_remap ring = Inl e \<Longrightarrow> e = KeyError"
proof (induction ring)
  case Nil
  then show ?case by simp
next
  case (Cons x ring)
  then obtain i where x: "x = I i" by (cases x) auto
  show ?case
  proof (cases "index_remap i")
    case None
    then show ?thesis using Cons.prems x by simp
  next
    case (Some j)
    then show ?thesis using Cons x
      by (cases "remap_ring index_remap ring") auto
  qed
qed

lemma remap_ring_ran:
  "remap_ring index_remap ring = Inr remapped \<Longrightarrow> set remapped \<subseteq> ran index_remap"
proof (induction ring arbitrary: remapped)
  case Nil
  then show ?case by simp
next
  case (Cons x ring)
  then show ?case
    by (cases x) (auto split: option.splits simp: ran_def)
qed

lemma py_index_in_range:
  "0 \<le> i \<Longrightarrow> i < int (length xs) \<Longrightarrow> py_index xs i = Inr (xs ! nat i)"
  by (simp add: py_index_def)

lemma coords3_total: "3 \<le> length p \<Longrightarrow> \<exists>c. coords3 p = Inr c"
  by (auto simp: coords3_def split: list.splits)

lemma is_degenerate_triangle_total:
  assumes "\<forall>v \<in> set vertices. 3 \<le> length v" and "0 \<le> idx0" and "0 \<le> idx1" and "0 \<le> idx2"
  shows "\<exists>b. is_degenerate_triangle idx0 idx1 idx2 vertices = Inr b"
proof (cases "idx0 = idx1 \<or> idx1 = idx2 \<or> idx0 = idx2 \<or> idx0 \<ge> int (length vertices)
     \<or> idx1 \<ge> int (length vertices) \<or> idx2 \<ge> int (length vertices)")
  case True
  then show ?thesis using is_degenerate_triangle_guard by blast
next
  case False
  then have r: "idx0 < int (length vertices)" "idx1 < int (length vertices)"
    "idx2 < int (length vertices)" by auto
  have "\<exists>c. coords3 (vertices ! nat i) = Inr c" if "0 \<le> i" "i < int (length vertices)" for i
    using that assms(1) by (intro coords3_total) (simp add: nat_less_iff)
  then obtain c0 c1 c2 where "coords3 (vertices ! nat idx0) = Inr c0"
    "coords3 (vertices ! nat idx1) = Inr c1" "coords3 (vertices ! nat idx2) = Inr c2"
    using assms(2-4) r by meson
  then show ?thesis using False assms(2-4) r
    by (simp add: is_degenerate_triangle_def py_index_in_range Let_def split: prod.splits)
qed

lemma process_ring_error:
  assumes "\<forall>x \<in> set ring. is_index x" and "\<forall>j \<in> ran index_remap. 0 \<le> j"
    and "\<forall>v \<in> set vertices. 3 \<le> length v"
    and "process_ring index_remap vertices ring = Inl e"
  shows "e = KeyError"
proof (cases "remap_ring index_remap ring")
  case (Inl e')
  then show ?thesis using assms(4) remap_ring_error[OF assms(1) Inl]
    by (simp add: process_ring_def)
next
  case (Inr remapped)
  let ?u = "fromkeys [] (clean_ring remapped)"
  have sub: "set ?u \<subseteq> ran index_remap"
    using remap_ring_ran[OF Inr] fromkeys_props[of "[]" "clean_ring remapped"]
    by (simp add: set_clean_ring)
  have False if three: "length ?u = 3"
  proof -
    have "?u ! 0 \<in> set ?u" "?u ! 1 \<in> set ?u" "?u ! 2 \<in> set ?u"
      using three by simp_all
    then have "0 \<le> ?u ! 0" "0 \<le> ?u ! 1" "0 \<le> ?u ! 2"
      using sub assms(2) by blast+
    then obtain b where "is_degenerate_triangle (?u ! 0) (?u ! 1) (?u ! 2) vertices = Inr b"
      using is_degenerate_triangle_total[OF assms(3)] by blast
    then show False using assms(4) Inr three
      by (simp add: process_ring_def Let_def)
  qed
  then show ?thesis using assms(4) Inr
    by (auto simp: process_ring_def Let_def split: if_splits)
qed

lemma process_error:
  "(\<forall>ring \<in> set (rings b). \<forall>x \<in> set ring. is_index x) \<longrightarrow>
   (\<forall>j \<in> ran index_remap. 0 \<le> j) \<longrightarrow> (\<forall>v \<in> set vertices. 3 \<le> length v) \<longrightarrow>
   process_boundary index_remap vertices b = Inl e \<longrightarrow> e = KeyError"
  "(\<forall>ring \<in> set (rings_list bs). \<forall>x \<in> set ring. is_index x) \<longrightarrow>
   (\<forall>j \<in> ran index_remap. 0 \<le> j) \<longrightarrow> (\<forall>v \<in> set vertices. 3 \<le> length v) \<longrightarrow>
   process_items index_remap vertices bs = Inl e \<longrightarrow> e = KeyError"
proof (induction index_remap vertices b and index_remap vertices bs
    rule: process_boundary_process_items.induct)
  case (3 index_remap vertices i rest)
  show ?case
    using process_ring_error[of "I i # rest" index_remap vertices e] by simp
next
  case (4 index_remap vertices xs rest)
  then show ?case
    by (cases "process_items index_remap vertices (L xs # rest)") auto
next
  case (6 index_remap vertices item items)
  then show ?case
    by (cases "process_boundary index_remap vertices item";
        cases "process_items index_remap vertices items") auto
qed simp_all


lemma weld_tuple_remap:
  assumes "weld_tuple p vs = (nv, ir)"
  shows "set nv \<subseteq> set vs"
    and "ir idx = None \<longleftrightarrow> idx < 0 \<or> int (length vs) \<le> idx"
    and "ir idx = Some j \<Longrightarrow> 0 \<le> j \<and> j < int (length nv)"
proof -
  obtain nv' m im where w: "weld_by (rounded_tuple p) vs = (nv', m, im)"
    by (cases "weld_by (rounded_tuple p) vs")
  from weld_tuple_eq[OF w] assms have nv: "nv' = nv" and ir: "ir = remap_of im" by simp_all
  note f = weld_by_first[OF w]
  show "set nv \<subseteq> set vs" using weld_by_subset[OF w] nv by simp
  show "ir idx = None \<longleftrightarrow> idx < 0 \<or> int (length vs) \<le> idx"
    unfolding ir remap_of_def using f(2) by auto
  show "0 \<le> j \<and> j < int (length nv)" if "ir idx = Some j"
  proof -
    from that have r: "0 \<le> idx" "idx < int (length im)" and j: "j = int (im ! nat idx)"
      unfolding ir remap_of_def by (auto split: if_splits)
    have "nat idx < length vs" using r f(2) by simp
    then have "im ! nat idx < length nv" using f(3) nv by simp
    then show ?thesis using j by simp
  qed
qed

lemma update_only_index_error:
  "update_item index_mapping b = Inl e \<longrightarrow> e = IndexError"
  "update_boundaries index_mapping bs = Inl e \<longrightarrow> e = IndexError"
proof (induction index_mapping b and index_mapping bs rule: update_item_update_boundaries.induct)
  case (1 index_mapping item)
  show ?case by (auto simp: py_index_def split: if_splits)
next
  case (2 index_mapping boundaries)
  then show ?case by (cases "update_boundaries index_mapping boundaries") auto
next
  case (3 index_mapping)
  show ?case by simp
next
  case (4 index_mapping item items)
  then show ?case
    by (cases "update_item index_mapping item";
        cases "update_boundaries index_mapping items") auto
qed

lemma update_out_of_range:
  "idx \<in> set (leaves b) \<longrightarrow> (idx < - int (length index_mapping) \<or> int (length index_mapping) \<le> idx)
     \<longrightarrow> isl (update_item index_mapping b)"
  "idx \<in> set (leaves_list bs) \<longrightarrow> (idx < - int (length index_mapping) \<or> int (length index_mapping) \<le> idx)
     \<longrightarrow> isl (update_boundaries index_mapping bs)"
proof (induction index_mapping b and index_mapping bs rule: update_item_update_boundaries.induct)
  case (1 index_mapping item)
  show ?case by (auto simp: py_index_def)
next
  case (2 index_mapping boundaries)
  then show ?case by (auto intro: bind_err_isl)
next
  case (3 index_mapping)
  show ?case by simp
next
  case (4 index_mapping item items)
  then show ?case
    by (cases "update_item index_mapping item";
        cases "update_boundaries index_mapping items") auto
qed

text \<open>
  C3, amended. Nothing is recovered. When a ring met by \<^verbatim>\<open>process_boundary\<close> holds an index
  outside \<open>0 \<le> idx < len(old_vertices)\<close>, the pass of fix\_triangles.py ends with an
  exception and gives no output; on boundaries whose rings hold only integers, over
  vertices of at least three coordinates, that exception is the KeyError of the
  \<^verbatim>\<open>index_remap\<close> lookup. In cleaner.py, an index below \<open>-len(index_mapping)\<close> or at or
  beyond \<open>len(index_mapping)\<close> ends \<^verbatim>\<open>update_boundaries\<close> with IndexError.
\<close>

theorem out_of_bounds_index_aborts:
  "(ring \<in> set (rings_list boundaries) \<and> I idx \<in> set ring \<and>
      (idx < 0 \<or> int (length old_vertices) \<le> idx)
    \<longrightarrow> (\<exists>e. fix_triangles p old_vertices boundaries = Inl e))
   \<and>
   (ring \<in> set (rings_list boundaries) \<and> I idx \<in> set ring \<and>
      (idx < 0 \<or> int (length old_vertices) \<le> idx) \<and>
      (\<forall>r \<in> set (rings_list boundaries). \<forall>x \<in> set r. is_index x) \<and>
      (\<forall>v \<in> set old_vertices. 3 \<le> length v)
    \<longrightarrow> fix_triangles p old_vertices boundaries = Inl KeyError)
   \<and>
   (idx \<in> set (leaves_list boundaries) \<and>
      (idx < - int (length index_mapping) \<or> int (length index_mapping) \<le> idx)
    \<longrightarrow> update_boundaries index_mapping boundaries = Inl IndexError)"
proof (intro conjI impI)
  obtain nv ir where w: "weld_tuple p old_vertices = (nv, ir)"
    by (cases "weld_tuple p old_vertices")
  note r = weld_tuple_remap[OF w]
  have abort: "isl (process_items ir nv boundaries)"
    if "ring \<in> set (rings_list boundaries) \<and> I idx \<in> set ring \<and>
        (idx < 0 \<or> int (length old_vertices) \<le> idx)"
  proof -
    have "ir idx = None" using that r(2)[of idx] by simp
    then show ?thesis using that process_missing(2)[of ring boundaries idx ir nv] by simp
  qed
  {
    assume a: "ring \<in> set (rings_list boundaries) \<and> I idx \<in> set ring \<and>
        (idx < 0 \<or> int (length old_vertices) \<le> idx)"
    from abort[OF a] obtain e where "process_items ir nv boundaries = Inl e"
      by (cases "process_items ir nv boundaries") auto
    then show "\<exists>e. fix_triangles p old_vertices boundaries = Inl e"
      by (simp add: fix_triangles_def w)
  }
  {
    assume a: "ring \<in> set (rings_list boundaries) \<and> I idx \<in> set ring \<and>
      (idx < 0 \<or> int (length old_vertices) \<le> idx) \<and>
      (\<forall>r \<in> set (rings_list boundaries). \<forall>x \<in> set r. is_index x) \<and>
      (\<forall>v \<in> set old_vertices. 3 \<le> length v)"
    then have "isl (process_items ir nv boundaries)" using abort by blast
    then obtain e where e: "process_items ir nv boundaries = Inl e"
      by (cases "process_items ir nv boundaries") auto
    have nonneg: "\<forall>j \<in> ran ir. 0 \<le> j" using r(3) by (auto simp: ran_def)
    have wfv: "\<forall>v \<in> set nv. 3 \<le> length v" using a r(1) by blast
    have "e = KeyError" using process_error(2)[of boundaries ir nv e] a nonneg wfv e by blast
    then show "fix_triangles p old_vertices boundaries = Inl KeyError"
      using e by (simp add: fix_triangles_def w)
  }
  {
    assume a: "idx \<in> set (leaves_list boundaries) \<and>
      (idx < - int (length index_mapping) \<or> int (length index_mapping) \<le> idx)"
    then have "isl (update_boundaries index_mapping boundaries)"
      using update_out_of_range(2) by blast
    then obtain e where e: "update_boundaries index_mapping boundaries = Inl e"
      by (cases "update_boundaries index_mapping boundaries") auto
    then show "update_boundaries index_mapping boundaries = Inl IndexError"
      using update_only_index_error(2)[of index_mapping boundaries e] by simp
  }
qed

theorem out_of_bounds_index_aborts_witness:
  "[I 0, I (- 4), I 2] \<in> set (rings_list [L [L [I 0, I (- 4), I 2]]]) \<and>
   I (- 4) \<in> set [I 0, I (- 4), I 2] \<and> - 4 < (0::int) \<and>
   fix_triangles 6 triangle_vertices [L [L [I 0, I (- 4), I 2]]] = Inl KeyError \<and>
   - 4 \<in> set (leaves_list [L [L [I 0, I (- 4), I 2]]]) \<and>
   - 4 < - int (length [0, 1, 2 :: int]) \<and>
   update_boundaries [0, 1, 2] [L [L [I 0, I (- 4), I 2]]] = Inl IndexError"
proof -
  have h1: "[I 0, I (- 4), I 2] \<in> set (rings_list [L [L [I 0, I (- 4), I 2]]]) \<and>
    I (- 4) \<in> set [I 0, I (- 4), I 2] \<and>
    (- 4 < (0::int) \<or> int (length triangle_vertices) \<le> - 4) \<and>
    (\<forall>r \<in> set (rings_list [L [L [I 0, I (- 4), I 2]]]). \<forall>x \<in> set r. is_index x) \<and>
    (\<forall>v \<in> set triangle_vertices. 3 \<le> length v)"
    by (simp add: triangle_vertices_def)
  have h2: "- 4 \<in> set (leaves_list [L [L [I 0, I (- 4), I 2]]]) \<and>
    (- 4 < - int (length [0, 1, 2 :: int]) \<or> int (length [0, 1, 2 :: int]) \<le> - 4)"
    by simp
  note t = out_of_bounds_index_aborts[where ring = "[I 0, I (- 4), I 2]" and idx = "- 4"
      and boundaries = "[L [L [I 0, I (- 4), I 2]]]" and old_vertices = triangle_vertices
      and p = 6 and index_mapping = "[0, 1, 2]"]
  from t h1 have a: "fix_triangles 6 triangle_vertices [L [L [I 0, I (- 4), I 2]]] = Inl KeyError"
    by blast
  from t h2 have b: "update_boundaries [0, 1, 2] [L [L [I 0, I (- 4), I 2]]] = Inl IndexError"
    by blast
  from h1 a h2 b show ?thesis by simp
qed


text \<open>
  C3, as stated: the ring with the out-of-bounds index 7 is not dropped with the pass
  going on; the pass aborts, although the other face alone passes.
\<close>

theorem out_of_bounds_index_counterexample:
  "fix_triangles 6 triangle_vertices [L [L [I 0, I 1, I 2]], L [L [I 0, I 1, I 7]]]
     = Inl KeyError \<and>
   fix_triangles 6 triangle_vertices [L [L [I 0, I 1, I 2]]]
     = Inr (triangle_vertices, [L [L [I 0, I 1, I 2]]]) \<and>
   update_boundaries (snd (weld_string 5 triangle_vertices))
     [L [L [I 0, I 1, I 2]], L [L [I 0, I 1, I 7]]] = Inl IndexError"
  by code_simp




section \<open>Triangulation emits every triangle\<close>

lemma build_triangles_all:
  "build_triangles all_indices result = Inr new_triangles \<Longrightarrow>
   length result = 3 * length new_triangles \<and>
   (\<forall>k<length new_triangles.
      \<exists>x y z. py_index all_indices (result ! (3 * k)) = Inr x \<and>
              py_index all_indices (result ! (3 * k + 1)) = Inr y \<and>
              py_index all_indices (result ! (3 * k + 2)) = Inr z \<and>
              new_triangles ! k = [x, y, z])"
proof (induction all_indices result arbitrary: new_triangles rule: build_triangles.induct)
  case (1 all_indices)
  then show ?case by simp
next
  case (2 all_indices a b c rest)
  then obtain x y z ts where x: "py_index all_indices a = Inr x"
    and y: "py_index all_indices b = Inr y" and z: "py_index all_indices c = Inr z"
    and ts: "build_triangles all_indices rest = Inr ts" and n: "new_triangles = [x, y, z] # ts"
    by auto
  note ih = "2.IH"[OF ts]
  show ?case
  proof (intro conjI allI impI)
    show "length (a # b # c # rest) = 3 * length new_triangles" using ih n by simp
  next
    fix k assume k: "k < length new_triangles"
    show "\<exists>x y z. py_index all_indices ((a # b # c # rest) ! (3 * k)) = Inr x \<and>
              py_index all_indices ((a # b # c # rest) ! (3 * k + 1)) = Inr y \<and>
              py_index all_indices ((a # b # c # rest) ! (3 * k + 2)) = Inr z \<and>
              new_triangles ! k = [x, y, z]"
    proof (cases k)
      case 0
      then show ?thesis using x y z n by simp
    next
      case (Suc k')
      then have "k' < length ts" using k n by simp
      then obtain x' y' z' where "py_index all_indices (rest ! (3 * k')) = Inr x'"
        "py_index all_indices (rest ! (3 * k' + 1)) = Inr y'"
        "py_index all_indices (rest ! (3 * k' + 2)) = Inr z'" "ts ! k' = [x', y', z']"
        using ih by blast
      moreover have "3 * k = Suc (Suc (Suc (3 * k')))" using Suc by simp
      ultimately show ?thesis using n Suc by simp
    qed
  qed
qed simp_all

text \<open>
  C2, amended. In triangulate mode there is no degeneracy test. For a face whose exterior
  ring has at least 3 distinct indices, every index triple that the ear-clipper returns
  is mapped back through \<^verbatim>\<open>all_indices\<close> and emitted, in order: as many triangles as a third
  of the length of its answer.
\<close>

theorem triangulate_face_emits_all:
  assumes "triangulate_face earcut new_vertices (exterior_ring_indices # holes) = Inr triangles"
    and "3 \<le> card (set exterior_ring_indices)"
  shows "\<exists>vertices_2d hole_indices.
           length (earcut vertices_2d hole_indices) = 3 * length triangles \<and>
           (\<forall>k<length triangles.
              \<exists>x y z.
                py_index (exterior_ring_indices @ concat holes)
                  (earcut vertices_2d hole_indices ! (3 * k)) = Inr x \<and>
                py_index (exterior_ring_indices @ concat holes)
                  (earcut vertices_2d hole_indices ! (3 * k + 1)) = Inr y \<and>
                py_index (exterior_ring_indices @ concat holes)
                  (earcut vertices_2d hole_indices ! (3 * k + 2)) = Inr z \<and>
                triangles ! k = [x, y, z])"
proof -
  have ge: "\<not> card (set exterior_ring_indices) < 3" using assms(2) by simp
  from assms(1) ge obtain exterior_points normal where
    n: "get_normal exterior_points = Inr normal" and
    r: "(case projection_axes normal of (ax1, ax2) \<Rightarrow>
            bind_err (project ax1 ax2 exterior_points) (\<lambda>ext_2d.
            bind_err (project_holes new_vertices ax1 ax2 (ext_2d, []) holes)
              (\<lambda>(vertices_2d, hole_indices).
                 let result = earcut vertices_2d hole_indices;
                     all_indices = exterior_ring_indices @ concat holes
                 in build_triangles all_indices result))) = Inr triangles"
    unfolding triangulate_face_def by auto
  obtain ax1 ax2 where ax: "projection_axes normal = (ax1, ax2)"
    by (cases "projection_axes normal")
  from r obtain vertices_2d hole_indices where
    "build_triangles (exterior_ring_indices @ concat holes) (earcut vertices_2d hole_indices)
       = Inr triangles"
    unfolding ax by (auto simp: Let_def)
  from build_triangles_all[OF this] show ?thesis by blast
qed


theorem triangulate_face_emits_all_witness:
  "triangulate_face earcut_three_points sliver_vertices [[0, 1, 2]] = Inr [[1, 2, 0]] \<and>
   3 \<le> card (set [0, 1, 2 :: int]) \<and>
   (\<exists>vertices_2d hole_indices.
      length (earcut_three_points vertices_2d hole_indices) = 3 * length [[1, 2, 0 :: int]] \<and>
      (\<forall>k<length [[1, 2, 0 :: int]].
         \<exists>x y z.
           py_index ([0, 1, 2 :: int] @ concat [])
             (earcut_three_points vertices_2d hole_indices ! (3 * k)) = Inr x \<and>
           py_index ([0, 1, 2 :: int] @ concat [])
             (earcut_three_points vertices_2d hole_indices ! (3 * k + 1)) = Inr y \<and>
           py_index ([0, 1, 2 :: int] @ concat [])
             (earcut_three_points vertices_2d hole_indices ! (3 * k + 2)) = Inr z \<and>
           [[1, 2, 0 :: int]] ! k = [x, y, z]))"
proof -
  have e: "triangulate_face earcut_three_points sliver_vertices [[0, 1, 2]] = Inr [[1, 2, 0]]"
    by code_simp
  have c: "3 \<le> card (set [0, 1, 2 :: int])" by simp
  from triangulate_face_emits_all[OF e c] e c show ?thesis by blast
qed

text \<open>
  C2, as stated: the sliver triangle is degenerate for both tests of the repository
  (\<open>1e-20\<close> is below \<open>1e-16\<close> and \<open>1e-12\<close>) and is in the output all the same.
\<close>

theorem degenerate_triangle_emitted_counterexample:
  "repair_geometry earcut_three_points 5 sliver_vertices [[[0, 1, 2]]]
     = Inr (sliver_vertices, [[[1, 2, 0]]]) \<and>
   is_degenerate_triangle 1 2 0 sliver_vertices = Inr True \<and>
   keep_face sliver_vertices [[[1, 2, 0]]] = Inr False"
  by code_simp



section \<open>What the outputs guarantee\<close>























end
